theory Spec2Isabelle
  imports Main "HOL-Library.AList"
begin

section \<open>JavaScript values and identity\<close>

text \<open>
  The stores of \<^verbatim>\<open>src/KeyContext.tsx\<close> hold values of type \<^verbatim>\<open>any\<close> and compare
  them with \<^verbatim>\<open>Object.is\<close>. Objects are represented by their address. On numbers
  \<^verbatim>\<open>Object.is\<close> identifies NaN with itself and separates the two zeros, so with one value
  for NaN and a value of its own for the negative zero, \<^verbatim>\<open>Object.is\<close> is equality of the
  representation.
\<close>

type_synonym addr = nat

datatype number = NaN | MinusZero | Finite int

datatype jsval =
    VUndefined
  | VNull
  | VBool bool
  | VNumber number
  | VString string
  | VObject addr

definition Object_is :: "jsval \<Rightarrow> jsval \<Rightarrow> bool" where
  "Object_is a b = (a = b)"

section \<open>The listener set\<close>

text \<open>
  A listener is a function object, here its identity. \<^verbatim>\<open>Set<Listener>\<close> is the list of
  entries that ECMAScript calls its \<^verbatim>\<open>SetData\<close>: entries are appended by \<^verbatim>\<open>add\<close>, and
  \<^verbatim>\<open>delete\<close> replaces the entry by the marker \<^verbatim>\<open>empty\<close> (here \<open>None\<close>), so that a
  running \<^verbatim>\<open>forEach\<close> keeps its index.
\<close>

type_synonym listener = nat

type_synonym setdata = "listener option list"

fun set_has :: "setdata \<Rightarrow> listener \<Rightarrow> bool" where
  "set_has [] l = False"
| "set_has (e # es) l = (if e = Some l then True else set_has es l)"

definition set_add :: "setdata \<Rightarrow> listener \<Rightarrow> setdata" where
  "set_add es l = (if set_has es l then es else es @ [Some l])"

fun set_delete :: "setdata \<Rightarrow> listener \<Rightarrow> setdata" where
  "set_delete [] l = []"
| "set_delete (e # es) l = (if e = Some l then None # es else e # set_delete es l)"

text \<open>
  The listeners in the set, in the order of their entries. No listener occurs in two
  entries: the invariant of a set built by \<open>set_add\<close>.
\<close>

fun members :: "setdata \<Rightarrow> listener list" where
  "members [] = []"
| "members (None # es) = members es"
| "members (Some l # es) = l # members es"

definition set_ok :: "setdata \<Rightarrow> bool" where
  "set_ok es = distinct (members es)"

text \<open>
  What a listener does when it is called is not code of this module. A listener can reach
  the private set \<^verbatim>\<open>listeners\<close> only through \<^verbatim>\<open>subscribe\<close> and the closures it
  returns, so its effect on the set is a sequence of these two actions. A listener is taken
  to return, and not to call \<^verbatim>\<open>setValue\<close> or \<^verbatim>\<open>notify\<close> of the store that is calling it.
\<close>

datatype action = Subscribe listener | Unsubscribe listener

fun perform :: "action \<Rightarrow> setdata \<Rightarrow> setdata" where
  "perform (Subscribe l) es = set_add es l"
| "perform (Unsubscribe l) es = set_delete es l"


text \<open>
  \<^verbatim>\<open>listeners.forEach((l) => l())\<close>, after \<^verbatim>\<open>Set.prototype.forEach\<close>: the index runs over
  the entries, the number of entries is read again after every call, empty entries are
  skipped. A listener that deletes and adds itself again is appended and visited again, so
  the loop need not end: it runs on fuel, one unit for each entry visited, and \<open>None\<close> is a
  loop that has not returned. The second component of the result lists the listeners
  called, in order.
\<close>

fun forEach ::
  "nat \<Rightarrow> (listener \<Rightarrow> action list) \<Rightarrow> nat \<Rightarrow> setdata \<Rightarrow> listener list
    \<Rightarrow> (setdata \<times> listener list) option" where
  "forEach 0 body index entries called =
     (if index < length entries then None else Some (entries, called))"
| "forEach (Suc fuel) body index entries called =
     (if index < length entries then
        (case entries ! index of
           None \<Rightarrow> forEach fuel body (index + 1) entries called
         | Some l \<Rightarrow>
             forEach fuel body (index + 1) (fold perform (body l) entries) (called @ [l]))
      else Some (entries, called))"


section \<open>createStore\<close>

record store =
  store_value :: jsval
  listeners :: setdata

definition createStore :: "jsval \<Rightarrow> store" where
  "createStore initialValue = \<lparr>store_value = initialValue, listeners = []\<rparr>"

definition getValue :: "store \<Rightarrow> jsval" where
  "getValue st = store_value st"

text \<open>\<open>setValue\<close> returns the store it leaves and the listeners it called.\<close>

definition setValue ::
  "nat \<Rightarrow> (listener \<Rightarrow> action list) \<Rightarrow> store \<Rightarrow> jsval \<Rightarrow> (store \<times> listener list) option" where
  "setValue fuel body st newValue =
     (if Object_is (store_value st) newValue then Some (st, [])
      else
        (case forEach fuel body 0 (listeners st) [] of
           None \<Rightarrow> None
         | Some (entries, called) \<Rightarrow>
             Some (\<lparr>store_value = newValue, listeners = entries\<rparr>, called)))"

definition notify ::
  "nat \<Rightarrow> (listener \<Rightarrow> action list) \<Rightarrow> store \<Rightarrow> (store \<times> listener list) option" where
  "notify fuel body st =
     (case forEach fuel body 0 (listeners st) [] of
        None \<Rightarrow> None
      | Some (entries, called) \<Rightarrow> Some (st\<lparr>listeners := entries\<rparr>, called))"

text \<open>
  \<^verbatim>\<open>subscribe(listener)\<close> adds the listener and returns the closure
  \<^verbatim>\<open>() => listeners.delete(listener)\<close>; \<open>unsubscribe st l\<close> is a call of that closure on the
  store as it is then.
\<close>

definition subscribe :: "store \<Rightarrow> listener \<Rightarrow> store" where
  "subscribe st l = st\<lparr>listeners := set_add (listeners st) l\<rparr>"

definition unsubscribe :: "store \<Rightarrow> listener \<Rightarrow> store" where
  "unsubscribe st l = st\<lparr>listeners := set_delete (listeners st) l\<rparr>"

section \<open>Scopes\<close>

text \<open>
  A scope is an object whose own properties map keys to stores and whose prototype is
  another scope or the end of the chain. The end of a chain of JavaScript objects is
  \<^verbatim>\<open>null\<close>, or \<^verbatim>\<open>Object.prototype\<close> (for an object literal), or an object that inherits
  from \<^verbatim>\<open>Object.prototype\<close> and is not a scope; the one such object this module can put
  there is one of its stores, through the accessor \<^verbatim>\<open>__proto__\<close>. A scope is never
  changed once \<^verbatim>\<open>KeyContextProvider\<close> has returned it, and \<open>oid\<close> is the identity it got when
  it was created: two scopes are the same object when they are equal.
\<close>

datatype root = Null | ObjectPrototype | StoreObject addr

datatype scope = Scope (oid: nat) (own: "(string \<times> addr) list") (proto: "root + scope")

text \<open>
  What the walk along the prototype chain finds for a key: nothing, an own property of a
  scope (it holds a store), a built-in function of \<^verbatim>\<open>Object.prototype\<close>, a method of the
  store object at the end of the chain, or the accessor \<^verbatim>\<open>__proto__\<close> of
  \<^verbatim>\<open>Object.prototype\<close>.
\<close>

datatype found = Missing | Own addr | Builtin | Method addr | Accessor

definition Object_prototype_members :: "string list" where
  "Object_prototype_members =
     [''constructor'', ''hasOwnProperty'', ''isPrototypeOf'', ''propertyIsEnumerable'',
      ''toLocaleString'', ''toString'', ''valueOf'', ''__proto__'', ''__defineGetter__'',
      ''__defineSetter__'', ''__lookupGetter__'', ''__lookupSetter__'']"

definition store_members :: "string list" where
  "store_members = [''getValue'', ''setValue'', ''subscribe'', ''notify'']"

fun get_root :: "root \<Rightarrow> string \<Rightarrow> found" where
  "get_root Null k = Missing"
| "get_root ObjectPrototype k =
     (if k = ''__proto__'' then Accessor
      else if k \<in> set Object_prototype_members then Builtin else Missing)"
| "get_root (StoreObject a) k =
     (if k \<in> set store_members then Method a
      else if k = ''__proto__'' then Accessor
      else if k \<in> set Object_prototype_members then Builtin else Missing)"

fun get_chain :: "scope \<Rightarrow> string \<Rightarrow> found" where
  "get_chain (Scope i ps par) k =
     (case map_of ps k of
        Some a \<Rightarrow> Own a
      | None \<Rightarrow> (case par of Inl r \<Rightarrow> get_root r k | Inr s \<Rightarrow> get_chain s k))"

text \<open>
  What \<^verbatim>\<open>scope[keyName]\<close> evaluates to: \<^verbatim>\<open>undefined\<close>, a store, or a value that is not a
  store. The getter of the accessor \<^verbatim>\<open>__proto__\<close> returns the prototype of the scope the
  key is read from: a store when that prototype is a store object, and otherwise
  \<^verbatim>\<open>Object.prototype\<close> or a scope, which are not stores.
\<close>

datatype resolved = Undefined | Store addr | NonStore

definition get :: "scope \<Rightarrow> string \<Rightarrow> resolved" where
  "get s k =
     (case get_chain s k of
        Missing \<Rightarrow> Undefined
      | Own a \<Rightarrow> Store a
      | Builtin \<Rightarrow> NonStore
      | Method a \<Rightarrow> NonStore
      | Accessor \<Rightarrow>
          (case proto s of Inl (StoreObject a) \<Rightarrow> Store a | Inl r \<Rightarrow> NonStore | Inr p \<Rightarrow> NonStore))"

text \<open>
  The call \<^verbatim>\<open>store.m()\<close> on a value \<^verbatim>\<open>scope[keyName]\<close> that is not a store, for a method
  name \<open>m\<close> of stores. A function has no such method, nor has \<^verbatim>\<open>Object.prototype\<close>, and
  the call is a \<^verbatim>\<open>TypeError\<close> (\<open>None\<close>). A scope, returned by the getter of
  \<^verbatim>\<open>__proto__\<close>, has it when its chain ends in a store object and no scope on the chain
  binds the key \<open>m\<close>: the call is then the method of that store.
\<close>

definition call_on_other :: "scope \<Rightarrow> string \<Rightarrow> string \<Rightarrow> addr option" where
  "call_on_other s keyName m =
     (case get_chain s keyName of
        Accessor \<Rightarrow>
          (case proto s of
             Inl r \<Rightarrow> None
           | Inr p \<Rightarrow> (case get_chain p m of Method a \<Rightarrow> Some a | _ \<Rightarrow> None))
      | _ \<Rightarrow> None)"

fun chain_root :: "scope \<Rightarrow> root" where
  "chain_root (Scope i ps par) = (case par of Inl r \<Rightarrow> r | Inr s \<Rightarrow> chain_root s)"

text \<open>\<^verbatim>\<open>Object.create(parentScope || null)\<close>: a new object with no own property.\<close>

definition or_null :: "scope option \<Rightarrow> root + scope" where
  "or_null parentScope = (case parentScope of None \<Rightarrow> Inl Null | Some s \<Rightarrow> Inr s)"

definition Object_create :: "nat \<Rightarrow> root + scope \<Rightarrow> scope" where
  "Object_create i p = Scope i [] p"

text \<open>
  \<^verbatim>\<open>newScope[keyName] = store\<close>: the assignment defines an own property, unless the chain
  resolves the key to the accessor \<^verbatim>\<open>__proto__\<close> of \<^verbatim>\<open>Object.prototype\<close>, whose setter
  makes the store object the prototype instead.
\<close>

definition set_property :: "scope \<Rightarrow> string \<Rightarrow> addr \<Rightarrow> scope" where
  "set_property s k a =
     (if get_chain s k = Accessor then Scope (oid s) (own s) (Inl (StoreObject a))
      else Scope (oid s) (AList.update k a (own s)) (proto s))"

section \<open>KeyContextProvider\<close>

text \<open>
  The stores live in a heap; \<open>nextStore\<close> and \<open>nextObject\<close> are the addresses and identities
  not yet given out. \<open>hooks\<close> is what React keeps for one instance of the component between
  its evaluations: the ref, the dependencies and value of \<^verbatim>\<open>useMemo\<close>, the dependency of
  \<^verbatim>\<open>useEffect\<close>.
\<close>

record world =
  stores :: "addr \<Rightarrow> store"
  nextStore :: addr
  nextObject :: nat

record hooks =
  storeRef :: "addr option"
  memo :: "((scope option \<times> string) \<times> scope option) option"
  effectDeps :: "jsval option"

definition initial_world :: world where
  "initial_world = \<lparr>stores = (\<lambda>a. createStore VUndefined), nextStore = 0, nextObject = 0\<rparr>"

definition mount_hooks :: hooks where
  "mount_hooks = \<lparr>storeRef = None, memo = None, effectDeps = None\<rparr>"

text \<open>Lines 70 to 72: the store is created on the first evaluation only.\<close>

definition useRef_store :: "world \<Rightarrow> hooks \<Rightarrow> jsval \<Rightarrow> addr \<times> hooks \<times> world" where
  "useRef_store w h v =
     (case storeRef h of
        Some a \<Rightarrow> (a, h, w)
      | None \<Rightarrow>
          (nextStore w, h\<lparr>storeRef := Some (nextStore w)\<rparr>,
           w\<lparr>stores := (stores w)(nextStore w := createStore v),
             nextStore := Suc (nextStore w)\<rparr>))"

text \<open>Lines 82 to 87: the function given to \<^verbatim>\<open>useMemo\<close>.\<close>

definition scope_factory ::
  "world \<Rightarrow> scope option \<Rightarrow> string \<Rightarrow> addr \<Rightarrow> scope option \<times> world" where
  "scope_factory w parentScope keyName st =
     (if keyName = [] then (parentScope, w)
      else
        (let newScope = Object_create (nextObject w) (or_null parentScope)
         in (Some (set_property newScope keyName st), w\<lparr>nextObject := Suc (nextObject w)\<rparr>)))"

text \<open>
  \<^verbatim>\<open>useMemo(f, [parentScope, keyName])\<close>: React calls \<open>f\<close> on the first evaluation and when
  a dependency is not \<^verbatim>\<open>Object.is\<close> the one of the evaluation before, and returns the value
  it kept otherwise.
\<close>

definition deps_unchanged :: "hooks \<Rightarrow> scope option \<Rightarrow> string \<Rightarrow> bool" where
  "deps_unchanged h parentScope keyName =
     (case memo h of
        None \<Rightarrow> False
      | Some ((p0, k0), cached) \<Rightarrow> p0 = parentScope \<and> k0 = keyName)"

definition useMemo_scope ::
  "world \<Rightarrow> hooks \<Rightarrow> scope option \<Rightarrow> string \<Rightarrow> addr \<Rightarrow> scope option \<times> hooks \<times> world" where
  "useMemo_scope w h parentScope keyName st =
     (if deps_unchanged h parentScope keyName then
        (case memo h of Some (d, cached) \<Rightarrow> (cached, h, w) | None \<Rightarrow> (None, h, w))
      else
        (case scope_factory w parentScope keyName st of
           (sc, w') \<Rightarrow> (sc, h\<lparr>memo := Some ((parentScope, keyName), sc)\<rparr>, w')))"

text \<open>
  One evaluation of the component: the scope it gives to its children, its hooks and the
  world afterwards.
\<close>

definition KeyContextProvider ::
  "world \<Rightarrow> hooks \<Rightarrow> scope option \<Rightarrow> string \<Rightarrow> jsval \<Rightarrow> scope option \<times> hooks \<times> world" where
  "KeyContextProvider w h parentScope keyName v =
     (case useRef_store w h v of
        (st, h1, w1) \<Rightarrow> useMemo_scope w1 h1 parentScope keyName st)"

text \<open>Lines 75 to 77: the effect, run after an evaluation when \<^verbatim>\<open>value\<close> has changed.\<close>

definition provider_effect ::
  "nat \<Rightarrow> (listener \<Rightarrow> action list) \<Rightarrow> world \<Rightarrow> hooks \<Rightarrow> jsval
    \<Rightarrow> (hooks \<times> world \<times> listener list) option" where
  "provider_effect fuel body w h v =
     (if (case effectDeps h of None \<Rightarrow> False | Some v0 \<Rightarrow> Object_is v0 v) then Some (h, w, [])
      else
        (case storeRef h of
           None \<Rightarrow> Some (h\<lparr>effectDeps := Some v\<rparr>, w, [])
         | Some a \<Rightarrow>
             (case setValue fuel body (stores w a) v of
                None \<Rightarrow> None
              | Some (st', called) \<Rightarrow>
                  Some (h\<lparr>effectDeps := Some v\<rparr>, w\<lparr>stores := (stores w)(a := st')\<rparr>, called))))"

text \<open>
  A path of nested providers, outermost first, evaluated for the first time under the
  context value \<open>sc\<close>.
\<close>

fun nest :: "world \<Rightarrow> scope option \<Rightarrow> (string \<times> jsval) list \<Rightarrow> scope option \<times> world" where
  "nest w sc [] = (sc, w)"
| "nest w sc ((k, v) # bs) =
     (case KeyContextProvider w mount_hooks sc k v of (sc', h', w') \<Rightarrow> nest w' sc' bs)"

section \<open>useKeyContext\<close>

datatype error = NotAStore

definition lookup :: "scope option \<Rightarrow> string \<Rightarrow> resolved" where
  "lookup scope keyName = (case scope of None \<Rightarrow> Undefined | Some s \<Rightarrow> get s keyName)"

text \<open>
  Lines 103 to 107. On a value that is not a store the source goes on to call
  \<^verbatim>\<open>getValue\<close>; \<open>NotAStore\<close> is the \<^verbatim>\<open>TypeError\<close> of that call.
\<close>

definition getSnapshot :: "world \<Rightarrow> scope option \<Rightarrow> string \<Rightarrow> error + jsval" where
  "getSnapshot w scope keyName =
     (case scope of
        None \<Rightarrow> Inr VUndefined
      | Some s \<Rightarrow>
          (case get s keyName of
             Undefined \<Rightarrow> Inr VUndefined
           | Store a \<Rightarrow> Inr (getValue (stores w a))
           | NonStore \<Rightarrow>
               (case call_on_other s keyName ''getValue'' of
                  None \<Rightarrow> Inl NotAStore
                | Some a \<Rightarrow> Inr (getValue (stores w a)))))"

text \<open>
  Lines 109 to 119: the subscription of the hook adds the listener to the store the key
  resolves to, and does nothing when there is none.
\<close>

definition useKeyContext_subscribe ::
  "world \<Rightarrow> scope option \<Rightarrow> string \<Rightarrow> listener \<Rightarrow> error + world" where
  "useKeyContext_subscribe w scope keyName onStoreChange =
     (case scope of
        None \<Rightarrow> Inr w
      | Some s \<Rightarrow>
          (case get s keyName of
             Undefined \<Rightarrow> Inr w
           | Store a \<Rightarrow> Inr (w\<lparr>stores := (stores w)(a := subscribe (stores w a) onStoreChange)\<rparr>)
           | NonStore \<Rightarrow>
               (case call_on_other s keyName ''subscribe'' of
                  None \<Rightarrow> Inl NotAStore
                | Some a \<Rightarrow>
                    Inr (w\<lparr>stores := (stores w)(a := subscribe (stores w a) onStoreChange)\<rparr>))))"

section \<open>Well-formed contexts\<close>

text \<open>
  The scopes this module hands out end in \<^verbatim>\<open>null\<close>, and their identities and stores have
  been given out by the world.
\<close>

fun scope_ok :: "world \<Rightarrow> scope \<Rightarrow> bool" where
  "scope_ok w (Scope i ps par) =
     (i < nextObject w \<and> list_all (\<lambda>(k, a). a < nextStore w) ps \<and>
      (case par of Inl r \<Rightarrow> r = Null | Inr s \<Rightarrow> scope_ok w s))"

definition context_ok :: "world \<Rightarrow> scope option \<Rightarrow> bool" where
  "context_ok w sc = (case sc of None \<Rightarrow> True | Some s \<Rightarrow> scope_ok w s)"

text \<open>
  The hooks of an instance hold what its evaluations left there: its store has been given
  out, and the scope kept by \<^verbatim>\<open>useMemo\<close> is the parent's for an empty key, and otherwise an
  object with the key bound to the store of the instance and the parent as its prototype.
\<close>

definition hooks_ok :: "world \<Rightarrow> hooks \<Rightarrow> bool" where
  "hooks_ok w h =
     ((case storeRef h of None \<Rightarrow> True | Some a \<Rightarrow> a < nextStore w) \<and>
      (case memo h of
         None \<Rightarrow> True
       | Some ((p0, k0), cached) \<Rightarrow>
           context_ok w cached \<and>
           (if k0 = [] then cached = p0
            else
              (case cached of
                 None \<Rightarrow> False
               | Some s \<Rightarrow>
                   proto s = or_null p0 \<and>
                   (case storeRef h of None \<Rightarrow> False | Some a \<Rightarrow> own s = [(k0, a)])))))"

text \<open>\<open>extends w w'\<close>: the world \<open>w'\<close> has everything \<open>w\<close> has, unchanged.\<close>

definition extends :: "world \<Rightarrow> world \<Rightarrow> bool" where
  "extends w w' =
     (nextStore w \<le> nextStore w' \<and> nextObject w \<le> nextObject w' \<and>
      (\<forall>a < nextStore w. stores w' a = stores w a))"

text \<open>
  What a lookup is to give, in the words of the specification: the value of the nearest
  provider that binds the key, on a path given outermost first. A provider with an empty key
  binds nothing.
\<close>

fun nearest :: "(string \<times> jsval) list \<Rightarrow> string \<Rightarrow> jsval option" where
  "nearest [] J = None"
| "nearest ((k, v) # bs) J =
     (case nearest bs J of
        Some v' \<Rightarrow> Some v'
      | None \<Rightarrow> (if k = J \<and> k \<noteq> [] then Some v else None))"

text \<open>
  A provider of the key \<^verbatim>\<open>theme\<close> evaluated for the first time under the context
  \<^verbatim>\<open>null\<close>, and the same instance evaluated again with the empty key.
\<close>

definition theme_mounted :: "scope option \<times> hooks \<times> world" where
  "theme_mounted = KeyContextProvider initial_world mount_hooks None ''theme'' (VString ''dark'')"

definition theme_rekeyed :: "scope option \<times> hooks \<times> world" where
  "theme_rekeyed =
     KeyContextProvider (snd (snd theme_mounted)) (fst (snd theme_mounted)) None []
       (VString ''dark'')"

section \<open>Properties of the listener set\<close>

lemma set_has_iff: "set_has es l \<longleftrightarrow> Some l \<in> set es"
  by (induction es) auto

lemma set_delete_absent: "\<not> set_has es l \<Longrightarrow> set_delete es l = es"
  by (induction es) auto


lemma set_delete_subset: "set (set_delete es l) \<subseteq> insert None (set es)"
  by (induction es) auto

lemma set_has_delete_other: "l' \<noteq> l \<Longrightarrow> set_has (set_delete es l) l' = set_has es l'"
  by (induction es) auto


lemma set_members: "set (members es) = {l. Some l \<in> set es}"
  by (induction es rule: members.induct) auto

lemma members_append: "members (es @ fs) = members es @ members fs"
  by (induction es rule: members.induct) auto

lemma members_set_delete: "members (set_delete es l) = remove1 l (members es)"
  by (induction es rule: members.induct) auto

lemma set_ok_delete: "set_ok es \<Longrightarrow> set_ok (set_delete es l)"
  by (simp add: set_ok_def members_set_delete)

lemma set_delete_removes: "set_ok es \<Longrightarrow> \<not> set_has (set_delete es l) l"
  unfolding set_ok_def
  by (induction es rule: members.induct) (auto simp: set_has_iff set_members)

lemma set_ok_add: "set_ok es \<Longrightarrow> set_ok (set_add es l)"
  by (auto simp: set_ok_def set_add_def set_has_iff members_append set_members)

lemma set_has_add: "set_has (set_add es l) l' \<longleftrightarrow> l' = l \<or> set_has es l'"
  by (auto simp: set_add_def set_has_iff)







lemma perform_ok: "set_ok es \<Longrightarrow> set_ok (perform a es)"
  by (cases a) (simp_all add: set_ok_add set_ok_delete)

lemma fold_ok: "set_ok es \<Longrightarrow> set_ok (fold perform acts es)"
  by (induction acts arbitrary: es) (simp_all add: perform_ok)
















section \<open>Properties of the store\<close>

text \<open>Every store this module makes keeps the invariant of its listener set.\<close>

lemma createStore_ok: "set_ok (listeners (createStore v))"
  by (simp add: createStore_def set_ok_def)

lemma subscribe_ok: "set_ok (listeners st) \<Longrightarrow> set_ok (listeners (subscribe st l))"
  by (simp add: subscribe_def set_ok_add)

lemma unsubscribe_ok: "set_ok (listeners st) \<Longrightarrow> set_ok (listeners (unsubscribe st l))"
  by (simp add: unsubscribe_def set_ok_delete)

lemma forEach_ok:
  "set_ok es \<Longrightarrow> forEach fuel body i es called = Some (es', called') \<Longrightarrow> set_ok es'"
proof (induction fuel arbitrary: i es called)
  case 0
  then show ?case by (simp split: if_splits)
next
  case (Suc fuel)
  show ?case
  proof (cases "i < length es")
    case False
    with Suc.prems show ?thesis by simp
  next
    case True
    show ?thesis
    proof (cases "es ! i")
      case None
      with True Suc.prems Suc.IH [of es "i + 1" called] show ?thesis by simp
    next
      case (Some l)
      with True Suc.prems Suc.IH [of "fold perform (body l) es" "i + 1" "called @ [l]"]
      show ?thesis by (simp add: fold_ok)
    qed
  qed
qed

lemma setValue_ok:
  "set_ok (listeners st) \<Longrightarrow> setValue fuel body st v = Some (st', called) \<Longrightarrow>
   set_ok (listeners st')"
  by (auto simp: setValue_def split: if_splits option.splits dest: forEach_ok)

lemma unsubscribe_funpow_fixed:
  "unsubscribe s l = s \<Longrightarrow> ((\<lambda>s. unsubscribe s l) ^^ n) s = s"
  by (induction n) auto

text \<open>
  C8. \<^verbatim>\<open>subscribe(listener)\<close> registers the listener. Whatever the store has become when the
  returned function is called, the first call removes the listener and leaves the other
  listeners registered, and every further call of the same function leaves the store as it
  is. \<open>unsubscribe\<close> has no error result.
\<close>

theorem unsubscribe_idempotent:
  assumes "set_ok (listeners st)"
  shows "set_has (listeners (subscribe st l)) l
       \<and> \<not> set_has (listeners (unsubscribe st l)) l
       \<and> (\<forall>l'. l' \<noteq> l \<longrightarrow> set_has (listeners (unsubscribe st l)) l' = set_has (listeners st) l')
       \<and> (\<forall>n. ((\<lambda>s. unsubscribe s l) ^^ n) (unsubscribe st l) = unsubscribe st l)"
proof -
  let ?s1 = "unsubscribe st l"
  have registered: "set_has (listeners (subscribe st l)) l"
    by (simp add: subscribe_def set_has_add)
  have gone: "\<not> set_has (listeners ?s1) l"
    using assms by (simp add: unsubscribe_def set_delete_removes)
  have others: "\<forall>l'. l' \<noteq> l \<longrightarrow> set_has (listeners ?s1) l' = set_has (listeners st) l'"
    by (simp add: unsubscribe_def set_has_delete_other)
  have "unsubscribe ?s1 l = ?s1"
    using gone by (simp add: unsubscribe_def set_delete_absent)
  then have "\<forall>n. ((\<lambda>s. unsubscribe s l) ^^ n) ?s1 = ?s1"
    by (simp add: unsubscribe_funpow_fixed)
  with registered gone others show ?thesis by blast
qed

theorem unsubscribe_idempotent_witness:
  "set_ok (listeners (subscribe (subscribe (createStore VNull) 7) 3))
   \<and> set_has (listeners (subscribe (subscribe (createStore VNull) 7) 3)) 3
   \<and> \<not> set_has (listeners (unsubscribe (subscribe (subscribe (createStore VNull) 7) 3) 3)) 3
   \<and> ((\<lambda>s. unsubscribe s 3) ^^ 2) (unsubscribe (subscribe (subscribe (createStore VNull) 7) 3) 3)
       = \<lparr>store_value = VNull, listeners = [Some 7, None]\<rparr>"
proof -
  let ?st = "subscribe (subscribe (createStore VNull) 7) 3"
  have ok: "set_ok (listeners ?st)"
    by (simp add: set_ok_def subscribe_def createStore_def set_add_def)
  have has: "set_has (listeners ?st) 3"
    by (simp add: subscribe_def createStore_def set_add_def)
  have v: "unsubscribe ?st 3 = \<lparr>store_value = VNull, listeners = [Some 7, None]\<rparr>"
    by (simp add: unsubscribe_def subscribe_def createStore_def set_add_def)
  from unsubscribe_idempotent [OF ok, of 3] ok has v show ?thesis by metis
qed






section \<open>Properties of scopes\<close>

lemma get_chain_null_rooted:
  "scope_ok w s \<Longrightarrow> get_chain s k = Missing \<or> (\<exists>a. get_chain s k = Own a)"
  by (induction s k rule: get_chain.induct) (auto split: option.splits sum.splits)

lemma get_null_rooted: "scope_ok w s \<Longrightarrow> get s k \<noteq> NonStore"
  using get_chain_null_rooted [of w s k] by (auto simp: get_def)

lemma chain_root_ok: "scope_ok w s \<Longrightarrow> chain_root s = Null"
  by (induction s rule: chain_root.induct) (auto split: sum.splits)

lemma or_null_ok: "context_ok w P \<Longrightarrow> (case or_null P of Inl r \<Rightarrow> r = Null | Inr s \<Rightarrow> scope_ok w s)"
  by (simp add: context_ok_def or_null_def split: option.splits)

lemma get_fresh_proto:
  assumes "context_ok w P"
  shows "get_chain (Object_create i (or_null P)) k \<noteq> Accessor"
proof (cases P)
  case None
  then show ?thesis by (simp add: Object_create_def or_null_def)
next
  case (Some s)
  with assms have "scope_ok w s" by (simp add: context_ok_def)
  from get_chain_null_rooted [OF this, of k] Some show ?thesis
    by (auto simp: Object_create_def or_null_def)
qed

lemma new_scope:
  "context_ok w P \<Longrightarrow>
   set_property (Object_create i (or_null P)) k a = Scope i [(k, a)] (or_null P)"
  using get_fresh_proto [of w P i k]
  by (simp add: set_property_def) (simp add: Object_create_def)

lemma scope_factory_eq:
  "context_ok w P \<Longrightarrow>
   scope_factory w P k a =
     (if k = [] then (P, w)
      else (Some (Scope (nextObject w) [(k, a)] (or_null P)), w\<lparr>nextObject := Suc (nextObject w)\<rparr>))"
  by (simp add: scope_factory_def new_scope Let_def)

lemma get_new_scope:
  assumes "context_ok w P"
  shows "get (Scope i [(k, a)] (or_null P)) J = (if J = k then Store a else lookup P J)"
proof (cases P)
  case None
  then show ?thesis by (simp add: get_def or_null_def lookup_def)
next
  case (Some s)
  with assms have "scope_ok w s" by (simp add: context_ok_def)
  from get_chain_null_rooted [OF this, of J] Some show ?thesis
    by (auto simp: get_def or_null_def lookup_def)
qed

lemma lookup_new_scope:
  "context_ok w P \<Longrightarrow>
   lookup (Some (Scope i [(k, a)] (or_null P))) J = (if J = k then Store a else lookup P J)"
  by (simp only: lookup_def option.case get_new_scope)

lemma scope_ok_extends: "extends w w' \<Longrightarrow> scope_ok w s \<Longrightarrow> scope_ok w' s"
  by (induction s rule: chain_root.induct)
     (auto simp: extends_def list_all_iff split: sum.splits)

lemma context_ok_extends: "extends w w' \<Longrightarrow> context_ok w sc \<Longrightarrow> context_ok w' sc"
  by (auto simp: context_ok_def scope_ok_extends split: option.splits)

lemma get_chain_allocated: "scope_ok w s \<Longrightarrow> get_chain s k = Own a \<Longrightarrow> a < nextStore w"
  by (induction s k rule: get_chain.induct)
     (auto simp: list_all_iff split: option.splits sum.splits dest!: map_of_SomeD)

lemma get_allocated:
  assumes "scope_ok w s" and "get s k = Store a"
  shows "a < nextStore w"
proof -
  from get_chain_null_rooted [OF assms(1), of k] assms(2) have "get_chain s k = Own a"
    by (auto simp: get_def)
  with assms(1) show ?thesis by (rule get_chain_allocated)
qed

lemma getSnapshot_extends:
  assumes "extends w w'" and "context_ok w sc"
  shows "getSnapshot w' sc J = getSnapshot w sc J"
proof (cases sc)
  case None
  then show ?thesis by (simp add: getSnapshot_def)
next
  case (Some s)
  with assms(2) have ok: "scope_ok w s" by (simp add: context_ok_def)
  show ?thesis
  proof (cases "get s J")
    case (Store a)
    with ok have "a < nextStore w" by (rule get_allocated)
    with assms(1) have "stores w' a = stores w a" by (simp add: extends_def)
    with Some Store show ?thesis by (simp add: getSnapshot_def)
  next
    case NonStore
    with get_null_rooted [OF ok, of J] show ?thesis by simp
  qed (simp_all add: Some getSnapshot_def)
qed

lemma extends_refl: "extends w w"
  by (simp add: extends_def)

lemma extends_trans: "extends w w1 \<Longrightarrow> extends w1 w2 \<Longrightarrow> extends w w2"
  by (auto simp: extends_def)

lemma getSnapshot_Undefined: "lookup sc J = Undefined \<Longrightarrow> getSnapshot w sc J = Inr VUndefined"
  by (cases sc) (simp_all add: getSnapshot_def lookup_def)

lemma getSnapshot_Store:
  "lookup sc J = Store a \<Longrightarrow> getSnapshot w sc J = Inr (getValue (stores w a))"
  by (cases sc) (simp_all add: getSnapshot_def lookup_def)

lemma lookup_ok: "context_ok w sc \<Longrightarrow> lookup sc J \<noteq> NonStore"
  by (auto simp: context_ok_def lookup_def get_null_rooted split: option.splits)

lemma getSnapshot_same_lookup:
  assumes "lookup sc J = lookup sc' J" and "lookup sc' J \<noteq> NonStore"
  shows "getSnapshot w sc J = getSnapshot w sc' J"
  using assms by (cases "lookup sc' J") (simp_all add: getSnapshot_Undefined getSnapshot_Store)


section \<open>Properties of the provider\<close>

lemma hooks_ok_memo:
  assumes "hooks_ok w h" and "memo h = Some ((p0, k0), cached)"
  shows "context_ok w cached" and "k0 = [] \<Longrightarrow> cached = p0"
    and "k0 \<noteq> [] \<Longrightarrow> \<exists>s a. cached = Some s \<and> proto s = or_null p0 \<and> own s = [(k0, a)] \<and> storeRef h = Some a"
proof -
  from assms have m: "context_ok w cached \<and>
           (if k0 = [] then cached = p0
            else
              (case cached of
                 None \<Rightarrow> False
               | Some s \<Rightarrow>
                   proto s = or_null p0 \<and>
                   (case storeRef h of None \<Rightarrow> False | Some a \<Rightarrow> own s = [(k0, a)])))"
    by (simp add: hooks_ok_def)
  then show "context_ok w cached" by simp
  from m show "k0 = [] \<Longrightarrow> cached = p0" by simp
  from m show "k0 \<noteq> [] \<Longrightarrow> \<exists>s a. cached = Some s \<and> proto s = or_null p0 \<and> own s = [(k0, a)] \<and> storeRef h = Some a"
    by (cases cached; cases "storeRef h") auto
qed

lemma hooks_okI:
  assumes "case storeRef h of None \<Rightarrow> True | Some a \<Rightarrow> a < nextStore w"
    and "\<And>p0 k0 cached. memo h = Some ((p0, k0), cached) \<Longrightarrow>
           context_ok w cached \<and> (k0 = [] \<longrightarrow> cached = p0) \<and>
           (k0 \<noteq> [] \<longrightarrow> (\<exists>s a. cached = Some s \<and> proto s = or_null p0 \<and> own s = [(k0, a)] \<and> storeRef h = Some a))"
  shows "hooks_ok w h"
proof (cases "memo h")
  case None
  with assms(1) show ?thesis by (simp add: hooks_ok_def)
next
  case (Some m)
  obtain p0 k0 cached where m: "m = ((p0, k0), cached)" by (cases m) auto
  from assms(2) [of p0 k0 cached] Some m
  have "context_ok w cached \<and> (k0 = [] \<longrightarrow> cached = p0) \<and>
           (k0 \<noteq> [] \<longrightarrow> (\<exists>s a. cached = Some s \<and> proto s = or_null p0 \<and> own s = [(k0, a)] \<and> storeRef h = Some a))"
    by simp
  with assms(1) Some m show ?thesis
    by (cases "k0 = []") (auto simp: hooks_ok_def)
qed

lemma hooks_ok_store: "hooks_ok w h \<Longrightarrow> storeRef h = Some a \<Longrightarrow> a < nextStore w"
  by (simp add: hooks_ok_def)

lemma hooks_ok_extends:
  assumes "extends w w'" and "hooks_ok w h"
  shows "hooks_ok w' h"
proof (rule hooks_okI)
  show "case storeRef h of None \<Rightarrow> True | Some a \<Rightarrow> a < nextStore w'"
    using assms by (auto simp: hooks_ok_def extends_def split: option.splits)
next
  fix p0 k0 cached
  assume m: "memo h = Some ((p0, k0), cached)"
  note M = hooks_ok_memo [OF assms(2) m]
  have "context_ok w' cached" using assms(1) M(1) by (rule context_ok_extends)
  with M(2,3) show "context_ok w' cached \<and> (k0 = [] \<longrightarrow> cached = p0) \<and>
           (k0 \<noteq> [] \<longrightarrow> (\<exists>s a. cached = Some s \<and> proto s = or_null p0 \<and> own s = [(k0, a)] \<and> storeRef h = Some a))"
    by blast
qed

lemma useRef_store_props:
  assumes "hooks_ok w h" and "useRef_store w h v = (a, h1, w1)"
  shows "extends w w1" and "a < nextStore w1" and "storeRef h1 = Some a" and "memo h1 = memo h"
    and "nextObject w1 = nextObject w" and "hooks_ok w1 h1"
    and "storeRef h = None \<Longrightarrow> a = nextStore w \<and> stores w1 a = createStore v"
proof -
  show ext: "extends w w1"
    using assms(2) by (auto simp: useRef_store_def extends_def split: option.splits)
  show a: "a < nextStore w1"
    using assms by (auto simp: useRef_store_def hooks_ok_def split: option.splits)
  show r: "storeRef h1 = Some a"
    using assms(2) by (auto simp: useRef_store_def split: option.splits)
  show m: "memo h1 = memo h"
    using assms(2) by (auto simp: useRef_store_def split: option.splits)
  show "nextObject w1 = nextObject w"
    using assms(2) by (auto simp: useRef_store_def split: option.splits)
  show "storeRef h = None \<Longrightarrow> a = nextStore w \<and> stores w1 a = createStore v"
    using assms(2) by (auto simp: useRef_store_def)
  have same: "storeRef h = None \<or> storeRef h = Some a"
    using assms(2) by (auto simp: useRef_store_def split: option.splits)
  show "hooks_ok w1 h1"
  proof (rule hooks_okI)
    show "case storeRef h1 of None \<Rightarrow> True | Some a \<Rightarrow> a < nextStore w1"
      using a r by simp
  next
    fix p0 k0 cached
    assume "memo h1 = Some ((p0, k0), cached)"
    with m have mh: "memo h = Some ((p0, k0), cached)" by simp
    note M = hooks_ok_memo [OF assms(1) mh]
    have c: "context_ok w1 cached" using ext M(1) by (rule context_ok_extends)
    have "k0 \<noteq> [] \<longrightarrow> (\<exists>s a. cached = Some s \<and> proto s = or_null p0 \<and> own s = [(k0, a)] \<and> storeRef h1 = Some a)"
    proof
      assume "k0 \<noteq> []"
      from M(3) [OF this] obtain s b where
        sb: "cached = Some s" "proto s = or_null p0" "own s = [(k0, b)]" "storeRef h = Some b"
        by blast
      with same have "b = a" by simp
      with sb r show "\<exists>s a. cached = Some s \<and> proto s = or_null p0 \<and> own s = [(k0, a)] \<and> storeRef h1 = Some a"
        by blast
    qed
    with c M(2) show "context_ok w1 cached \<and> (k0 = [] \<longrightarrow> cached = p0) \<and>
           (k0 \<noteq> [] \<longrightarrow> (\<exists>s a. cached = Some s \<and> proto s = or_null p0 \<and> own s = [(k0, a)] \<and> storeRef h1 = Some a))"
      by blast
  qed
qed

lemma scope_ok_new:
  assumes "context_ok w P" and "a < nextStore w"
  shows "scope_ok (w\<lparr>nextObject := Suc (nextObject w)\<rparr>) (Scope (nextObject w) [(k, a)] (or_null P))"
proof -
  have ext: "extends w (w\<lparr>nextObject := Suc (nextObject w)\<rparr>)" by (simp add: extends_def)
  from context_ok_extends [OF ext assms(1)] assms(2) show ?thesis
    by (auto simp: context_ok_def or_null_def split: option.splits)
qed

text \<open>
  What \<^verbatim>\<open>useMemo\<close> returns, kept or made anew: the parent scope for an empty key, an object
  with the key bound to the store \<open>a\<close> and the parent as prototype otherwise.
\<close>

lemma useMemo_scope_props:
  assumes "hooks_ok w h" and "context_ok w P" and "a < nextStore w"
    and "useMemo_scope w h P k a = (S, h', w')" and "storeRef h = Some a"
  shows "extends w w'" and "context_ok w' S" and "hooks_ok w' h'" and "memo h' = Some ((P, k), S)"
    and "storeRef h' = Some a"
    and "k = [] \<Longrightarrow> S = P"
    and "k \<noteq> [] \<Longrightarrow> \<exists>s. S = Some s \<and> proto s = or_null P \<and> own s = [(k, a)]"
proof -
  have all: "extends w w' \<and> context_ok w' S \<and> hooks_ok w' h' \<and> memo h' = Some ((P, k), S)
      \<and> storeRef h' = Some a \<and> (k = [] \<longrightarrow> S = P)
      \<and> (k \<noteq> [] \<longrightarrow> (\<exists>s. S = Some s \<and> proto s = or_null P \<and> own s = [(k, a)]))"
  proof (cases "deps_unchanged h P k")
    case True
    then obtain cached where m: "memo h = Some ((P, k), cached)"
      by (auto simp: deps_unchanged_def split: option.splits)
    with True assms(4) have eq: "S = cached" "h' = h" "w' = w"
      by (auto simp: useMemo_scope_def)
    note M = hooks_ok_memo [OF assms(1) m]
    from M(3) assms(5)
    have "k \<noteq> [] \<longrightarrow> (\<exists>s. cached = Some s \<and> proto s = or_null P \<and> own s = [(k, a)])"
      by auto
    with eq m assms(1,5) M(1,2) show ?thesis
      by (simp add: extends_refl)
  next
    case False
    show ?thesis
    proof (cases "k = []")
      case True
      with False assms(4) have eq: "S = P" "h' = h\<lparr>memo := Some ((P, k), P)\<rparr>" "w' = w"
        by (auto simp: useMemo_scope_def scope_factory_eq [OF assms(2)])
      have "hooks_ok w (h\<lparr>memo := Some ((P, k), P)\<rparr>)"
      proof (rule hooks_okI)
        show "case storeRef (h\<lparr>memo := Some ((P, k), P)\<rparr>) of None \<Rightarrow> True | Some a \<Rightarrow> a < nextStore w"
          using assms(3,5) by simp
      next
        fix p0 k0 cached
        assume "memo (h\<lparr>memo := Some ((P, k), P)\<rparr>) = Some ((p0, k0), cached)"
        then have "p0 = P" "k0 = k" "cached = P" by auto
        with True assms(2) show "context_ok w cached \<and> (k0 = [] \<longrightarrow> cached = p0) \<and>
           (k0 \<noteq> [] \<longrightarrow> (\<exists>s a. cached = Some s \<and> proto s = or_null p0 \<and> own s = [(k0, a)]
              \<and> storeRef (h\<lparr>memo := Some ((P, k), P)\<rparr>) = Some a))"
          by simp
      qed
      with eq assms(2,5) True show ?thesis
        by (simp add: extends_refl)
    next
      case nonempty: False
      let ?s = "Scope (nextObject w) [(k, a)] (or_null P)"
      let ?w = "w\<lparr>nextObject := Suc (nextObject w)\<rparr>"
      let ?h = "h\<lparr>memo := Some ((P, k), Some ?s)\<rparr>"
      from False nonempty assms(4)
      have eq: "S = Some ?s" "h' = ?h" "w' = ?w"
        by (auto simp: useMemo_scope_def scope_factory_eq [OF assms(2)])
      have ext: "extends w ?w" by (simp add: extends_def)
      have ok: "scope_ok ?w ?s" using assms(2,3) by (rule scope_ok_new)
      have "hooks_ok ?w ?h"
      proof (rule hooks_okI)
        show "case storeRef ?h of None \<Rightarrow> True | Some a \<Rightarrow> a < nextStore ?w"
          using assms(3,5) by simp
      next
        fix p0 k0 cached
        assume "memo ?h = Some ((p0, k0), cached)"
        then have "p0 = P" "k0 = k" "cached = Some ?s" by auto
        with nonempty ok assms(5) show "context_ok ?w cached \<and> (k0 = [] \<longrightarrow> cached = p0) \<and>
           (k0 \<noteq> [] \<longrightarrow> (\<exists>s a. cached = Some s \<and> proto s = or_null p0 \<and> own s = [(k0, a)]
              \<and> storeRef ?h = Some a))"
          by (simp add: context_ok_def)
      qed
      with eq ext ok nonempty assms(5) show ?thesis by (simp add: context_ok_def)
    qed
  qed
  then show "extends w w'" "context_ok w' S" "hooks_ok w' h'" "memo h' = Some ((P, k), S)"
    "storeRef h' = Some a" "k = [] \<Longrightarrow> S = P"
    "k \<noteq> [] \<Longrightarrow> \<exists>s. S = Some s \<and> proto s = or_null P \<and> own s = [(k, a)]"
    by blast+
qed

lemma provider_props:
  assumes "hooks_ok w h" and "context_ok w P" and "KeyContextProvider w h P k v = (S, h', w')"
  shows "extends w w'" and "context_ok w' S" and "hooks_ok w' h'" and "memo h' = Some ((P, k), S)"
    and "k = [] \<Longrightarrow> S = P"
    and "k \<noteq> [] \<Longrightarrow> \<exists>s a. S = Some s \<and> proto s = or_null P \<and> own s = [(k, a)]
           \<and> storeRef h' = Some a \<and> a < nextStore w'"
proof -
  obtain a h1 w1 where r: "useRef_store w h v = (a, h1, w1)" by (cases "useRef_store w h v")
  with assms(3) have m: "useMemo_scope w1 h1 P k a = (S, h', w')"
    by (simp add: KeyContextProvider_def)
  note R = useRef_store_props [OF assms(1) r]
  have P1: "context_ok w1 P" using R(1) assms(2) by (rule context_ok_extends)
  note M = useMemo_scope_props [OF R(6) P1 R(2) m R(3)]
  show "extends w w'" using R(1) M(1) by (rule extends_trans)
  show "context_ok w' S" "hooks_ok w' h'" "memo h' = Some ((P, k), S)" by (fact M)+
  show "k = [] \<Longrightarrow> S = P" by (fact M(6))
  have "a < nextStore w'" using M(3,5) by (rule hooks_ok_store)
  with M(5,7) show "k \<noteq> [] \<Longrightarrow> \<exists>s a. S = Some s \<and> proto s = or_null P \<and> own s = [(k, a)]
           \<and> storeRef h' = Some a \<and> a < nextStore w'"
    by blast
qed

lemma lookup_own:
  "context_ok w P \<Longrightarrow> proto s = or_null P \<Longrightarrow> own s = [(k, a)] \<Longrightarrow>
   lookup (Some s) J = (if J = k then Store a else lookup P J)"
  by (cases s) (simp add: lookup_new_scope)

text \<open>
  How keys resolve under a provider, on its first evaluation or a later one: its own key, when
  not empty, to its own store, every other key as above the provider.
\<close>

lemma provider_lookup:
  assumes "hooks_ok w h" and "context_ok w P" and "KeyContextProvider w h P k v = (S, h', w')"
  shows "k = [] \<or> J \<noteq> k \<Longrightarrow> lookup S J = lookup P J"
    and "k \<noteq> [] \<Longrightarrow> \<exists>a. storeRef h' = Some a \<and> lookup S k = Store a"
proof -
  note E = provider_props [OF assms]
  show "k = [] \<or> J \<noteq> k \<Longrightarrow> lookup S J = lookup P J"
  proof (cases "k = []")
    case True
    with E(5) show ?thesis by simp
  next
    case False
    assume "k = [] \<or> J \<noteq> k"
    with False have "J \<noteq> k" by simp
    from E(6) [OF False] obtain s a where "S = Some s" "proto s = or_null P" "own s = [(k, a)]"
      by blast
    with \<open>J \<noteq> k\<close> show ?thesis by (simp add: lookup_own [OF assms(2)])
  qed
  show "k \<noteq> [] \<Longrightarrow> \<exists>a. storeRef h' = Some a \<and> lookup S k = Store a"
  proof -
    assume "k \<noteq> []"
    from E(6) [OF this] obtain s a where
      "S = Some s" "proto s = or_null P" "own s = [(k, a)]" "storeRef h' = Some a"
      by blast
    then show ?thesis by (simp add: lookup_own [OF assms(2)])
  qed
qed

lemma mount_hooks_ok: "hooks_ok w mount_hooks"
  by (simp add: hooks_ok_def mount_hooks_def)

lemma provider_mount:
  assumes "context_ok w P" and "KeyContextProvider w mount_hooks P k v = (S, h', w')"
  shows "S = (if k = [] then P else Some (Scope (nextObject w) [(k, nextStore w)] (or_null P)))"
    and "stores w' (nextStore w) = createStore v"
    and "nextStore w' = Suc (nextStore w)"
    and "nextObject w' = (if k = [] then nextObject w else Suc (nextObject w))"
proof -
  let ?w1 = "w\<lparr>stores := (stores w)(nextStore w := createStore v), nextStore := Suc (nextStore w)\<rparr>"
  have ext: "extends w ?w1" by (simp add: extends_def)
  have P1: "context_ok ?w1 P" using ext assms(1) by (rule context_ok_extends)
  from assms(2) have "(S, h', w') =
      (case scope_factory ?w1 P k (nextStore w) of
         (sc, w'') \<Rightarrow> (sc, mount_hooks\<lparr>storeRef := Some (nextStore w), memo := Some ((P, k), sc)\<rparr>, w''))"
    by (simp add: KeyContextProvider_def useRef_store_def useMemo_scope_def deps_unchanged_def
        mount_hooks_def split: prod.splits)
  then have eq: "S = (if k = [] then P else Some (Scope (nextObject w) [(k, nextStore w)] (or_null P)))
      \<and> w' = (if k = [] then ?w1 else ?w1\<lparr>nextObject := Suc (nextObject w)\<rparr>)"
    by (simp add: scope_factory_eq [OF P1] split: if_splits)
  then show "S = (if k = [] then P else Some (Scope (nextObject w) [(k, nextStore w)] (or_null P)))"
    by blast
  from eq show "stores w' (nextStore w) = createStore v" "nextStore w' = Suc (nextStore w)"
    "nextObject w' = (if k = [] then nextObject w else Suc (nextObject w))"
    by (simp_all split: if_splits)
qed

lemma provider_mount_snapshot:
  assumes "context_ok w P" and "KeyContextProvider w mount_hooks P k v = (S, h', w')"
  shows "getSnapshot w' S J = (if k = J \<and> k \<noteq> [] then Inr v else getSnapshot w P J)"
proof -
  note E = provider_props [OF mount_hooks_ok assms]
  note M = provider_mount [OF assms]
  have frame: "getSnapshot w' P J = getSnapshot w P J"
    using E(1) assms(1) by (rule getSnapshot_extends)
  show ?thesis
  proof (cases "k = []")
    case True
    with M(1) frame show ?thesis by simp
  next
    case False
    with M(1) have S: "S = Some (Scope (nextObject w) [(k, nextStore w)] (or_null P))" by simp
    have l: "lookup S J = (if J = k then Store (nextStore w) else lookup P J)"
      unfolding S using assms(1) by (rule lookup_new_scope)
    have "getSnapshot w' S J =
        (if J = k then Inr (getValue (stores w' (nextStore w))) else getSnapshot w' P J)"
    proof (cases "J = k")
      case True
      with l show ?thesis by (simp add: getSnapshot_Store)
    next
      case False
      with l have "lookup S J = lookup P J" by simp
      then have "getSnapshot w' S J = getSnapshot w' P J"
        using lookup_ok [OF assms(1)] by (rule getSnapshot_same_lookup)
      with False show ?thesis by simp
    qed
    with M(2) frame False show ?thesis by (auto simp: getValue_def createStore_def)
  qed
qed

lemma provider_mount_lookup:
  assumes "context_ok w P" and "KeyContextProvider w mount_hooks P k v = (S, h', w')"
  shows "lookup S J = (if k = J \<and> k \<noteq> [] then Store (nextStore w) else lookup P J)"
  using provider_mount(1) [OF assms] lookup_new_scope [OF assms(1), of "nextObject w" k "nextStore w" J]
  by (auto split: if_splits)

text \<open>
  The effect that follows the first evaluation finds the value it would store in the store
  already: it changes nothing and calls no listener.
\<close>

lemma mount_effect_is_noop:
  assumes "context_ok w P" and "KeyContextProvider w mount_hooks P k v = (S, h', w')"
  shows "provider_effect fuel body w' h' v = Some (h'\<lparr>effectDeps := Some v\<rparr>, w', [])"
proof -
  note M = provider_mount [OF assms]
  have h': "storeRef h' = Some (nextStore w)" "effectDeps h' = None"
    using assms(2)
    by (auto simp: KeyContextProvider_def useRef_store_def useMemo_scope_def deps_unchanged_def
        mount_hooks_def split: prod.splits)
  have "setValue fuel body (stores w' (nextStore w)) v = Some (stores w' (nextStore w), [])"
    using M(2) by (simp add: setValue_def Object_is_def createStore_def)
  with h' show ?thesis by (simp add: provider_effect_def)
qed

lemma provider_reuse:
  assumes "memo h = Some ((p1, k1), s1)" and "p2 = p1" and "k2 = k1"
    and "KeyContextProvider w h p2 k2 v = (s2, h', w')"
  shows "s2 = s1 \<and> nextObject w' = nextObject w"
  using assms
  by (auto simp: KeyContextProvider_def useRef_store_def useMemo_scope_def deps_unchanged_def
      split: option.splits prod.splits)

lemma provider_recompute:
  assumes "memo h = Some ((p1, k1), s1)" and "\<not> (p2 = p1 \<and> k2 = k1)" and "context_ok w p2"
    and "KeyContextProvider w h p2 k2 v = (s2, h', w')"
  shows "(k2 = [] \<longrightarrow> s2 = p2 \<and> nextObject w' = nextObject w)
       \<and> (k2 \<noteq> [] \<longrightarrow>
            (\<exists>a. s2 = Some (Scope (nextObject w) [(k2, a)] (or_null p2)) \<and> storeRef h' = Some a)
            \<and> nextObject w' = Suc (nextObject w))"
proof -
  obtain a h1 w1 where r: "useRef_store w h v = (a, h1, w1)" by (cases "useRef_store w h v")
  then have r': "memo h1 = memo h" "nextObject w1 = nextObject w" "storeRef h1 = Some a" "extends w w1"
    by (auto simp: useRef_store_def extends_def split: option.splits)
  have P1: "context_ok w1 p2" using r'(4) assms(3) by (rule context_ok_extends)
  from assms(4) r have "useMemo_scope w1 h1 p2 k2 a = (s2, h', w')"
    by (simp add: KeyContextProvider_def)
  moreover have "\<not> deps_unchanged h1 p2 k2"
    using assms(1,2) r'(1) by (auto simp: deps_unchanged_def)
  ultimately have "(s2, h', w') =
     (case scope_factory w1 p2 k2 a of
        (sc, w'') \<Rightarrow> (sc, h1\<lparr>memo := Some ((p2, k2), sc)\<rparr>, w''))"
    by (simp add: useMemo_scope_def)
  then show ?thesis
    using r' by (auto simp: scope_factory_eq [OF P1] split: if_splits)
qed

lemma nest_props:
  "context_ok w P \<Longrightarrow> nest w P bs = (S, w') \<Longrightarrow>
   extends w w' \<and> context_ok w' S \<and>
   getSnapshot w' S J = (case nearest bs J of Some v \<Rightarrow> Inr v | None \<Rightarrow> getSnapshot w P J)"
proof (induction bs arbitrary: w P)
  case Nil
  then show ?case by (simp add: extends_refl)
next
  case (Cons b bs)
  obtain k v where b: "b = (k, v)" by (cases b)
  obtain S1 h1 w1 where p: "KeyContextProvider w mount_hooks P k v = (S1, h1, w1)"
    by (cases "KeyContextProvider w mount_hooks P k v")
  with Cons.prems(2) b have n: "nest w1 S1 bs = (S, w')" by simp
  note E = provider_props [OF mount_hooks_ok Cons.prems(1) p]
  note snap = provider_mount_snapshot [OF Cons.prems(1) p, of J]
  from Cons.IH [OF E(2) n] have
    ih: "extends w1 w'" "context_ok w' S"
      "getSnapshot w' S J = (case nearest bs J of Some v \<Rightarrow> Inr v | None \<Rightarrow> getSnapshot w1 S1 J)"
    by blast+
  have "extends w w'" using E(1) ih(1) by (rule extends_trans)
  moreover have "getSnapshot w' S J =
      (case nearest (b # bs) J of Some v \<Rightarrow> Inr v | None \<Rightarrow> getSnapshot w P J)"
    using ih(3) snap b by (auto split: option.splits)
  ultimately show ?case using ih(2) by blast
qed

lemma nest_lookup:
  "context_ok w P \<Longrightarrow> nest w P bs = (S, w') \<Longrightarrow>
   (nearest bs J = None \<longrightarrow> lookup S J = lookup P J) \<and>
   (nearest bs J \<noteq> None \<longrightarrow> (\<exists>a. lookup S J = Store a))"
proof (induction bs arbitrary: w P)
  case Nil
  then show ?case by simp
next
  case (Cons b bs)
  obtain k v where b: "b = (k, v)" by (cases b)
  obtain S1 h1 w1 where p: "KeyContextProvider w mount_hooks P k v = (S1, h1, w1)"
    by (cases "KeyContextProvider w mount_hooks P k v")
  with Cons.prems(2) b have n: "nest w1 S1 bs = (S, w')" by simp
  note E = provider_props [OF mount_hooks_ok Cons.prems(1) p]
  note L = provider_mount_lookup [OF Cons.prems(1) p, of J]
  from Cons.IH [OF E(2) n] L b show ?case
    by (auto split: option.splits if_splits)
qed

lemma nearest_append:
  "nearest (as @ bs) J = (case nearest bs J of Some v \<Rightarrow> Some v | None \<Rightarrow> nearest as J)"
  by (induction as) (auto split: option.splits)

lemma nearest_None: "(\<forall>(k, v) \<in> set bs. k \<noteq> J \<or> k = []) \<Longrightarrow> nearest bs J = None"
  by (induction bs) auto

lemma nearest_other: "K \<noteq> J \<Longrightarrow> nearest ((K, v) # bs) J = nearest bs J"
  by (simp split: option.splits)


text \<open>
  The path of the README, evaluated: theme dark, user Alice, theme light. And what a scope
  that ended in \<^verbatim>\<open>Object.prototype\<close> would do, against one that ends in \<^verbatim>\<open>null\<close>.
\<close>

lemmas provider_eval =
  KeyContextProvider_def useRef_store_def useMemo_scope_def deps_unchanged_def scope_factory_def
  set_property_def Object_create_def or_null_def mount_hooks_def initial_world_def
  getSnapshot_def getValue_def createStore_def lookup_def get_def Let_def

lemma readme_example:
  "(case nest initial_world None
      [(''theme'', VString ''dark''), (''user'', VString ''Alice''), (''theme'', VString ''light'')] of
      (S, w) \<Rightarrow>
        getSnapshot w S ''theme'' = Inr (VString ''light'')
        \<and> getSnapshot w S ''user'' = Inr (VString ''Alice'')
        \<and> getSnapshot w None ''theme'' = Inr VUndefined
        \<and> S = Some (Scope 2 [(''theme'', 2)]
              (Inr (Scope 1 [(''user'', 1)] (Inr (Scope 0 [(''theme'', 0)] (Inl Null)))))))"
  by (simp add: provider_eval)

lemma Object_prototype_interferes:
  "get (set_property (Object_create 0 (Inl ObjectPrototype)) ''user'' 7) ''toString'' = NonStore
   \<and> set_property (Object_create 0 (Inl ObjectPrototype)) ''__proto__'' 7
       = Scope 0 [] (Inl (StoreObject 7))
   \<and> get (Scope 0 [] (Inl (StoreObject 7))) ''__proto__'' = Store 7
   \<and> get (Scope 0 [] (Inl (StoreObject 7))) ''notify'' = NonStore
   \<and> getSnapshot w (Some (Scope 0 [] (Inl (StoreObject 7)))) ''notify'' = Inl NotAStore
   \<and> get (Scope 1 [] (Inr (Scope 0 [] (Inl (StoreObject 7))))) ''__proto__'' = NonStore
   \<and> getSnapshot w (Some (Scope 1 [] (Inr (Scope 0 [] (Inl (StoreObject 7)))))) ''__proto__''
       = Inr (getValue (stores w 7))
   \<and> get (set_property (Object_create 0 (Inl Null)) ''__proto__'' 7) ''__proto__'' = Store 7
   \<and> get (set_property (Object_create 0 (Inl Null)) ''user'' 7) ''toString'' = Undefined"
  by (simp add: set_property_def Object_create_def Object_prototype_members_def store_members_def
      get_def getSnapshot_def call_on_other_def)


section \<open>Lookup through nested providers\<close>

text \<open>
  C1. Under a context \<open>P\<close>, a provider of a key \<open>K\<close> with value \<open>A\<close>, then providers of other
  keys, then a provider of \<open>K\<close> with value \<open>B\<close>, then providers of other keys again: the lookup
  of \<open>K\<close> below the inner provider of \<open>K\<close> gives \<open>B\<close>, the lookup of \<open>K\<close> between the two
  providers of \<open>K\<close> gives \<open>A\<close>. The first resolves to the store of the inner provider, the
  second to the store of the outer one, and the two stores are different. A provider binds
  its key when the key is not empty.
\<close>

theorem shadowing:
  assumes "K \<noteq> []" and "context_ok w P"
    and "\<forall>(k, v) \<in> set mid. k \<noteq> K" and "\<forall>(k, v) \<in> set inner. k \<noteq> K"
    and "KeyContextProvider w mount_hooks P K A = (S1, h1, w1)"
    and "nest w1 S1 mid = (S2, w2)"
    and "KeyContextProvider w2 mount_hooks S2 K B = (S3, h3, w3)"
    and "nest w3 S3 inner = (S4, w4)"
  shows "getSnapshot w4 S4 K = Inr B \<and> getSnapshot w4 S2 K = Inr A
       \<and> (\<exists>a b. storeRef h1 = Some a \<and> storeRef h3 = Some b \<and> a \<noteq> b
             \<and> lookup S2 K = Store a \<and> lookup S4 K = Store b)"
proof -
  note E1 = provider_props [OF mount_hooks_ok assms(2) assms(5)]
  have snap1: "getSnapshot w1 S1 K = Inr A"
    using provider_mount_snapshot [OF assms(2) assms(5), of K] assms(1) by simp
  have mid: "nearest mid K = None" using assms(3) by (intro nearest_None) auto
  from nest_props [OF E1(2) assms(6), of K] mid snap1
  have N2: "extends w1 w2" "context_ok w2 S2" "getSnapshot w2 S2 K = Inr A" by simp_all
  note E3 = provider_props [OF mount_hooks_ok N2(2) assms(7)]
  have snap3: "getSnapshot w3 S3 K = Inr B"
    using provider_mount_snapshot [OF N2(2) assms(7), of K] assms(1) by simp
  have inner: "nearest inner K = None" using assms(4) by (intro nearest_None) auto
  from nest_props [OF E3(2) assms(8), of K] inner snap3
  have N4: "extends w3 w4" "getSnapshot w4 S4 K = Inr B" by simp_all
  have "extends w2 w4" using E3(1) N4(1) by (rule extends_trans)
  then have "getSnapshot w4 S2 K = getSnapshot w2 S2 K"
    using N2(2) by (rule getSnapshot_extends)
  with N2(3) have outer: "getSnapshot w4 S2 K = Inr A" by simp
  have l1: "lookup S1 K = Store (nextStore w)"
    using provider_mount_lookup [OF assms(2) assms(5), of K] assms(1) by simp
  have l3: "lookup S3 K = Store (nextStore w2)"
    using provider_mount_lookup [OF N2(2) assms(7), of K] assms(1) by simp
  from provider_lookup(2) [OF mount_hooks_ok assms(2) assms(5) assms(1)] l1
  have r1: "storeRef h1 = Some (nextStore w)" by auto
  from provider_lookup(2) [OF mount_hooks_ok N2(2) assms(7) assms(1)] l3
  have r3: "storeRef h3 = Some (nextStore w2)" by auto
  have l2: "lookup S2 K = Store (nextStore w)"
    using nest_lookup [OF E1(2) assms(6), of K] mid l1 by simp
  have l4: "lookup S4 K = Store (nextStore w2)"
    using nest_lookup [OF E3(2) assms(8), of K] inner l3 by simp
  have "nextStore w1 = Suc (nextStore w)" using provider_mount(3) [OF assms(2) assms(5)] .
  with N2(1) have "nextStore w \<noteq> nextStore w2" by (simp add: extends_def)
  with r1 r3 l2 l4 N4(2) outer show ?thesis by blast
qed

theorem shadowing_witness:
  "(case KeyContextProvider initial_world mount_hooks None ''theme'' (VString ''dark'') of
      (S1, h1, w1) \<Rightarrow>
        (case nest w1 S1 [(''user'', VString ''Alice'')] of
           (S2, w2) \<Rightarrow>
             (case KeyContextProvider w2 mount_hooks S2 ''theme'' (VString ''light'') of
                (S3, h3, w3) \<Rightarrow>
                  getSnapshot w3 S3 ''theme'' = Inr (VString ''light'')
                  \<and> getSnapshot w3 S2 ''theme'' = Inr (VString ''dark''))))"
proof -
  obtain S1 h1 w1 where
    p1: "KeyContextProvider initial_world mount_hooks None ''theme'' (VString ''dark'') = (S1, h1, w1)"
    by (cases "KeyContextProvider initial_world mount_hooks None ''theme'' (VString ''dark'')")
  obtain S2 w2 where n2: "nest w1 S1 [(''user'', VString ''Alice'')] = (S2, w2)"
    by (cases "nest w1 S1 [(''user'', VString ''Alice'')]")
  obtain S3 h3 w3 where
    p3: "KeyContextProvider w2 mount_hooks S2 ''theme'' (VString ''light'') = (S3, h3, w3)"
    by (cases "KeyContextProvider w2 mount_hooks S2 ''theme'' (VString ''light'')")
  have n4: "nest w3 S3 [] = (S3, w3)" by simp
  have key: "''theme'' \<noteq> []" by simp
  have ctx: "context_ok initial_world None" by (simp add: context_ok_def)
  have mid: "\<forall>(k, v) \<in> set [(''user'', VString ''Alice'')]. k \<noteq> ''theme''" by simp
  have inner: "\<forall>(k, v) \<in> set ([] :: (string \<times> jsval) list). k \<noteq> ''theme''" by simp
  from shadowing [OF key ctx mid inner p1 n2 p3 n4]
  have "getSnapshot w3 S3 ''theme'' = Inr (VString ''light'')
      \<and> getSnapshot w3 S2 ''theme'' = Inr (VString ''dark'')" by blast
  then show ?thesis unfolding p1 prod.case n2 p3 by simp
qed


text \<open>
  C3. On a path of providers from the root, none of which binds \<open>K\<close>, the lookup of \<open>K\<close> gives
  \<^verbatim>\<open>undefined\<close> and no error; so does the lookup of \<open>K\<close> under the context \<^verbatim>\<open>null\<close>, with no
  provider at all.
\<close>

theorem absence:
  assumes "\<forall>(k, v) \<in> set bs. k \<noteq> K \<or> k = []" and "nest w None bs = (S, w')"
  shows "getSnapshot w' S K = Inr VUndefined \<and> getSnapshot w None K = Inr VUndefined"
proof -
  have root: "getSnapshot w None K = Inr VUndefined" by (simp add: getSnapshot_def)
  have ctx: "context_ok w None" by (simp add: context_ok_def)
  have "nearest bs K = None" using assms(1) by (rule nearest_None)
  with nest_props [OF ctx assms(2), of K] root show ?thesis by simp
qed

theorem absence_witness:
  "(case nest initial_world None [(''theme'', VString ''dark''), ([], VNull)] of
      (S, w') \<Rightarrow> getSnapshot w' S ''user'' = Inr VUndefined \<and> getSnapshot w' S [] = Inr VUndefined)
   \<and> getSnapshot initial_world None ''user'' = Inr VUndefined"
proof -
  obtain S w' where n: "nest initial_world None [(''theme'', VString ''dark''), ([], VNull)] = (S, w')"
    by (cases "nest initial_world None [(''theme'', VString ''dark''), ([], VNull)]")
  have a: "\<forall>(k, v) \<in> set [(''theme'', VString ''dark''), ([], VNull)]. k \<noteq> ''user'' \<or> k = []"
    by simp
  have b: "\<forall>(k, v) \<in> set [(''theme'', VString ''dark''), ([], VNull)]. k \<noteq> [] \<or> k = []"
    by simp
  from absence [OF a n] absence [OF b n] show ?thesis unfolding n prod.case by simp
qed


text \<open>
  C4. For keys \<open>K \<noteq> J\<close>, a provider of \<open>K\<close> put anywhere on the path between the context \<open>P\<close>
  and the lookup of \<open>J\<close> does not change what the lookup of \<open>J\<close> gives; when \<open>J\<close> is bound above
  that provider and not below it, the lookup gives the value bound above. Under a provider of
  \<open>K\<close> evaluated under \<open>P\<close>, for the first time or again, \<open>J\<close> resolves to what it resolves to
  under \<open>P\<close>.
\<close>

theorem transparency:
  assumes "K \<noteq> J" and "context_ok w P"
    and "nest w P (outer @ (K, v) # lower) = (S, w1)"
    and "nest w P (outer @ lower) = (S', w1')"
  shows "getSnapshot w1 S J = getSnapshot w1' S' J
       \<and> (\<forall>a. nearest outer J = Some a \<and> nearest lower J = None \<longrightarrow> getSnapshot w1 S J = Inr a)
       \<and> (\<forall>h u T h' w'. hooks_ok w h \<and> KeyContextProvider w h P K u = (T, h', w') \<longrightarrow>
             lookup T J = lookup P J \<and> getSnapshot w' T J = getSnapshot w P J)"
proof -
  have eq: "nearest (outer @ (K, v) # lower) J = nearest (outer @ lower) J"
    using nearest_other [OF assms(1), of v lower] by (simp only: nearest_append)
  from nest_props [OF assms(2) assms(3), of J] nest_props [OF assms(2) assms(4), of J] eq
  have same: "getSnapshot w1 S J = getSnapshot w1' S' J" by simp
  from nest_props [OF assms(2) assms(3), of J] eq
  have through: "\<forall>a. nearest outer J = Some a \<and> nearest lower J = None \<longrightarrow> getSnapshot w1 S J = Inr a"
    by (simp add: nearest_append)
  have single: "\<forall>h u T h' w'. hooks_ok w h \<and> KeyContextProvider w h P K u = (T, h', w') \<longrightarrow>
             lookup T J = lookup P J \<and> getSnapshot w' T J = getSnapshot w P J"
  proof (intro allI impI)
    fix h u T h' w'
    assume a: "hooks_ok w h \<and> KeyContextProvider w h P K u = (T, h', w')"
    then have h: "hooks_ok w h" and p: "KeyContextProvider w h P K u = (T, h', w')" by blast+
    have l: "lookup T J = lookup P J"
      using provider_lookup(1) [OF h assms(2) p, of J] assms(1) by simp
    have "getSnapshot w' T J = getSnapshot w' P J"
      using l lookup_ok [OF assms(2)] by (rule getSnapshot_same_lookup)
    also have "\<dots> = getSnapshot w P J"
      using provider_props(1) [OF h assms(2) p] assms(2) by (rule getSnapshot_extends)
    finally show "lookup T J = lookup P J \<and> getSnapshot w' T J = getSnapshot w P J"
      using l by simp
  qed
  from same through single show ?thesis by blast
qed

theorem transparency_witness:
  "(case nest initial_world None
           ([(''user'', VString ''Alice'')] @ (''theme'', VString ''dark'') # []) of
      (S, w1) \<Rightarrow>
        (case nest initial_world None ([(''user'', VString ''Alice'')] @ []) of
           (S', w1') \<Rightarrow>
             getSnapshot w1 S ''user'' = getSnapshot w1' S' ''user''
             \<and> getSnapshot w1 S ''user'' = Inr (VString ''Alice'')))"
proof -
  let ?outer = "[(''user'', VString ''Alice'')]"
  obtain S w1 where n: "nest initial_world None (?outer @ (''theme'', VString ''dark'') # []) = (S, w1)"
    by (cases "nest initial_world None (?outer @ (''theme'', VString ''dark'') # [])")
  obtain S' w1' where n': "nest initial_world None (?outer @ []) = (S', w1')"
    by (cases "nest initial_world None (?outer @ [])")
  have keys: "''theme'' \<noteq> ''user''" by simp
  have ctx: "context_ok initial_world None" by (simp add: context_ok_def)
  have near: "nearest ?outer ''user'' = Some (VString ''Alice'') \<and> nearest [] ''user'' = None"
    by simp
  from transparency [OF keys ctx n n'] near
  have "getSnapshot w1 S ''user'' = getSnapshot w1' S' ''user''
      \<and> getSnapshot w1 S ''user'' = Inr (VString ''Alice'')" by blast
  then show ?thesis unfolding n n' prod.case by metis
qed


text \<open>
  C9. When \<open>K\<close> resolves to a store that holds \<^verbatim>\<open>undefined\<close>, the lookup gives
  \<^verbatim>\<open>undefined\<close>, which is what it gives under a scope where \<open>K\<close> is not bound and under the
  context \<^verbatim>\<open>null\<close>.
\<close>

theorem bound_undefined_is_absent:
  assumes "lookup sc K = Store a" and "getValue (stores w a) = VUndefined"
    and "lookup sc' K = Undefined"
  shows "getSnapshot w sc K = Inr VUndefined \<and> getSnapshot w sc K = getSnapshot w sc' K
       \<and> getSnapshot w sc K = getSnapshot w None K"
proof -
  have bound: "getSnapshot w sc K = Inr VUndefined"
    using assms(1,2) by (simp add: getSnapshot_Store)
  have unbound: "getSnapshot w sc' K = Inr VUndefined"
    using assms(3) by (rule getSnapshot_Undefined)
  have "getSnapshot w None K = Inr VUndefined" by (simp add: getSnapshot_def)
  with bound unbound show ?thesis by simp
qed

theorem bound_undefined_is_absent_witness:
  "(case nest initial_world None [(''user'', VUndefined)] of
      (S, w) \<Rightarrow>
        lookup S ''user'' = Store 0 \<and> getValue (stores w 0) = VUndefined
        \<and> lookup None ''user'' = Undefined
        \<and> getSnapshot w S ''user'' = Inr VUndefined
        \<and> getSnapshot w S ''user'' = getSnapshot w None ''user'')"
proof -
  obtain S w where n: "nest initial_world None [(''user'', VUndefined)] = (S, w)"
    by (cases "nest initial_world None [(''user'', VUndefined)]")
  then have a: "lookup S ''user'' = Store 0" and b: "getValue (stores w 0) = VUndefined"
    by (auto simp: provider_eval)
  have c: "lookup None ''user'' = Undefined" by (simp add: lookup_def)
  from bound_undefined_is_absent [OF a b c] a b c show ?thesis
    unfolding n prod.case by metis
qed


text \<open>
  C10. Every scope on a path of providers from the root context \<^verbatim>\<open>null\<close> ends in a
  \<^verbatim>\<open>null\<close> prototype. For every key, the names of the members of \<^verbatim>\<open>Object.prototype\<close>
  among them, the key never resolves to an inherited built-in: a key no provider binds
  resolves to \<^verbatim>\<open>undefined\<close>, and a bound key resolves to a store holding the value of its
  nearest provider. The same holds of the scope of any provider evaluated under the path.
\<close>

theorem scopes_are_null_rooted:
  assumes "nest w None bs = (S, w')"
  shows "(case S of None \<Rightarrow> True | Some s \<Rightarrow> chain_root s = Null)
       \<and> lookup S k \<noteq> NonStore
       \<and> (nearest bs k = None \<longrightarrow> lookup S k = Undefined \<and> getSnapshot w' S k = Inr VUndefined)
       \<and> (\<forall>v. nearest bs k = Some v \<longrightarrow>
            (\<exists>a. lookup S k = Store a \<and> getValue (stores w' a) = v) \<and> getSnapshot w' S k = Inr v)
       \<and> (\<forall>h j u T h' w''. hooks_ok w' h \<and> KeyContextProvider w' h S j u = (T, h', w'') \<longrightarrow>
            (case T of None \<Rightarrow> True | Some s \<Rightarrow> chain_root s = Null) \<and> lookup T k \<noteq> NonStore)"
proof -
  have ctx: "context_ok w None" by (simp add: context_ok_def)
  note N = nest_props [OF ctx assms, of k]
  note L = nest_lookup [OF ctx assms, of k]
  have null_rooted: "\<And>u T. context_ok u T \<Longrightarrow>
      (case T of None \<Rightarrow> True | Some s \<Rightarrow> chain_root s = Null) \<and> lookup T k \<noteq> NonStore"
    by (auto simp: context_ok_def chain_root_ok lookup_def get_null_rooted split: option.splits)
  from N have ctx': "context_ok w' S" by blast
  have unbound: "nearest bs k = None \<longrightarrow> lookup S k = Undefined \<and> getSnapshot w' S k = Inr VUndefined"
  proof
    assume "nearest bs k = None"
    with L have "lookup S k = Undefined" by (simp add: lookup_def)
    then show "lookup S k = Undefined \<and> getSnapshot w' S k = Inr VUndefined"
      by (simp add: getSnapshot_Undefined)
  qed
  have bound: "\<forall>v. nearest bs k = Some v \<longrightarrow>
      (\<exists>a. lookup S k = Store a \<and> getValue (stores w' a) = v) \<and> getSnapshot w' S k = Inr v"
  proof (intro allI impI)
    fix v assume v: "nearest bs k = Some v"
    with L obtain a where a: "lookup S k = Store a" by auto
    from N v have snap: "getSnapshot w' S k = Inr v" by simp
    with a have "getValue (stores w' a) = v" by (simp add: getSnapshot_Store)
    with a snap show "(\<exists>a. lookup S k = Store a \<and> getValue (stores w' a) = v) \<and> getSnapshot w' S k = Inr v"
      by blast
  qed
  have later: "\<forall>h j u T h' w''. hooks_ok w' h \<and> KeyContextProvider w' h S j u = (T, h', w'') \<longrightarrow>
            (case T of None \<Rightarrow> True | Some s \<Rightarrow> chain_root s = Null) \<and> lookup T k \<noteq> NonStore"
  proof (intro allI impI)
    fix h j u T h' w''
    assume "hooks_ok w' h \<and> KeyContextProvider w' h S j u = (T, h', w'')"
    then have "context_ok w'' T" using provider_props(2) [OF _ ctx'] by blast
    then show "(case T of None \<Rightarrow> True | Some s \<Rightarrow> chain_root s = Null) \<and> lookup T k \<noteq> NonStore"
      by (rule null_rooted)
  qed
  from null_rooted [OF ctx'] unbound bound later show ?thesis by blast
qed

theorem scopes_are_null_rooted_witness:
  "(case nest initial_world None [(''toString'', VString ''x''), (''__proto__'', VString ''y'')] of
      (S, w') \<Rightarrow>
        (case S of None \<Rightarrow> True | Some s \<Rightarrow> chain_root s = Null)
        \<and> nearest [(''toString'', VString ''x''), (''__proto__'', VString ''y'')] ''hasOwnProperty'' = None
        \<and> getSnapshot w' S ''hasOwnProperty'' = Inr VUndefined
        \<and> nearest [(''toString'', VString ''x''), (''__proto__'', VString ''y'')] ''__proto__''
            = Some (VString ''y'')
        \<and> getSnapshot w' S ''__proto__'' = Inr (VString ''y'')
        \<and> getSnapshot w' S ''toString'' = Inr (VString ''x''))"
proof -
  let ?bs = "[(''toString'', VString ''x''), (''__proto__'', VString ''y'')]"
  obtain S w' where n: "nest initial_world None ?bs = (S, w')"
    by (cases "nest initial_world None ?bs")
  have a: "nearest ?bs ''hasOwnProperty'' = None" by simp
  have b: "nearest ?bs ''__proto__'' = Some (VString ''y'')" by simp
  have c: "nearest ?bs ''toString'' = Some (VString ''x'')" by simp
  from scopes_are_null_rooted [OF n, of "''hasOwnProperty''"]
    scopes_are_null_rooted [OF n, of "''__proto__''"]
    scopes_are_null_rooted [OF n, of "''toString''"] a b c
  have "(case S of None \<Rightarrow> True | Some s \<Rightarrow> chain_root s = Null)
        \<and> getSnapshot w' S ''hasOwnProperty'' = Inr VUndefined
        \<and> getSnapshot w' S ''__proto__'' = Inr (VString ''y'')
        \<and> getSnapshot w' S ''toString'' = Inr (VString ''x'')" by blast
  with a b show ?thesis unfolding n prod.case by simp
qed


section \<open>Identity of the scope of a provider\<close>

text \<open>
  C5 as stated fails: a provider first evaluated with the key \<^verbatim>\<open>theme\<close> under the context
  \<^verbatim>\<open>null\<close> is evaluated again with the empty key. The key has changed, and no scope object is
  produced: the children get the context of the parent, \<^verbatim>\<open>null\<close>.
\<close>

theorem empty_key_creates_no_scope:
  "fst theme_mounted = Some (Scope 0 [(''theme'', 0)] (Inl Null))
   \<and> memo (fst (snd theme_mounted)) = Some ((None, ''theme''), fst theme_mounted)
   \<and> nextObject (snd (snd theme_mounted)) = 1
   \<and> ''theme'' \<noteq> ([] :: string)
   \<and> fst theme_rekeyed = None
   \<and> nextObject (snd (snd theme_rekeyed)) = 1"
  by (simp add: theme_mounted_def theme_rekeyed_def provider_eval)

text \<open>
  C5, as amended. A provider is evaluated again, its hooks remembering the parent \<open>p1\<close>, the
  key \<open>k1\<close> and the scope \<open>s1\<close> of the evaluation before. When the parent is the same object
  and the key is the same, the scope it gives to its children is the object \<open>s1\<close> again and
  no object is created. A scope object is created exactly when one of the two has changed and
  the new key is not empty; it is a new object, not \<open>s1\<close>, with the new parent as its
  prototype. When one of the two has changed and the new key is empty, no object is created
  and the children get the scope of the parent.
\<close>

theorem scope_identity_stable:
  assumes "hooks_ok w h" and "context_ok w p2"
    and "memo h = Some ((p1, k1), s1)"
    and "KeyContextProvider w h p2 k2 v = (s2, h', w')"
  shows "(p2 = p1 \<and> k2 = k1 \<longrightarrow> s2 = s1 \<and> nextObject w' = nextObject w)
       \<and> (\<not> (p2 = p1 \<and> k2 = k1) \<and> k2 \<noteq> [] \<longrightarrow>
            (\<exists>s. s2 = Some s \<and> oid s = nextObject w \<and> proto s = or_null p2)
            \<and> nextObject w' = Suc (nextObject w) \<and> s2 \<noteq> s1)
       \<and> (\<not> (p2 = p1 \<and> k2 = k1) \<and> k2 = [] \<longrightarrow> s2 = p2 \<and> nextObject w' = nextObject w)
       \<and> (\<not> (p2 = p1 \<and> k2 = k1) \<and> k2 = [] \<and> k1 = [] \<longrightarrow> s2 \<noteq> s1)
       \<and> (nextObject w' \<noteq> nextObject w \<longleftrightarrow> \<not> (p2 = p1 \<and> k2 = k1) \<and> k2 \<noteq> [])
       \<and> memo h' = Some ((p2, k2), s2) \<and> hooks_ok w' h'"
proof -
  note E = provider_props [OF assms(1,2,4)]
  have reuse: "p2 = p1 \<and> k2 = k1 \<longrightarrow> s2 = s1 \<and> nextObject w' = nextObject w"
    using provider_reuse [OF assms(3) _ _ assms(4)] by blast
  have cached: "context_ok w s1" "k1 = [] \<longrightarrow> s1 = p1"
    using hooks_ok_memo(1,2) [OF assms(1,3)] by blast+
  have created: "\<not> (p2 = p1 \<and> k2 = k1) \<and> k2 \<noteq> [] \<longrightarrow>
            (\<exists>s. s2 = Some s \<and> oid s = nextObject w \<and> proto s = or_null p2)
            \<and> nextObject w' = Suc (nextObject w) \<and> s2 \<noteq> s1"
  proof
    assume d: "\<not> (p2 = p1 \<and> k2 = k1) \<and> k2 \<noteq> []"
    then have d1: "\<not> (p2 = p1 \<and> k2 = k1)" and d2: "k2 \<noteq> []" by blast+
    from provider_recompute [OF assms(3) d1 assms(2,4)] d2
    obtain a where s2: "s2 = Some (Scope (nextObject w) [(k2, a)] (or_null p2))"
      and n: "nextObject w' = Suc (nextObject w)" by blast
    have "s1 \<noteq> Some (Scope (nextObject w) [(k2, a)] (or_null p2))"
      using cached(1) by (auto simp: context_ok_def)
    with s2 n show "(\<exists>s. s2 = Some s \<and> oid s = nextObject w \<and> proto s = or_null p2)
            \<and> nextObject w' = Suc (nextObject w) \<and> s2 \<noteq> s1"
      by auto
  qed
  have passed: "\<not> (p2 = p1 \<and> k2 = k1) \<and> k2 = [] \<longrightarrow> s2 = p2 \<and> nextObject w' = nextObject w"
  proof
    assume d: "\<not> (p2 = p1 \<and> k2 = k1) \<and> k2 = []"
    then have d1: "\<not> (p2 = p1 \<and> k2 = k1)" and d2: "k2 = []" by blast+
    from provider_recompute [OF assms(3) d1 assms(2,4)] d2
    show "s2 = p2 \<and> nextObject w' = nextObject w" by blast
  qed
  have both_empty: "\<not> (p2 = p1 \<and> k2 = k1) \<and> k2 = [] \<and> k1 = [] \<longrightarrow> s2 \<noteq> s1"
    using passed cached(2) by auto
  have exactly: "nextObject w' \<noteq> nextObject w \<longleftrightarrow> \<not> (p2 = p1 \<and> k2 = k1) \<and> k2 \<noteq> []"
    using reuse created passed by (cases "p2 = p1 \<and> k2 = k1"; cases "k2 = []") auto
  from reuse created passed both_empty exactly E(3,4) show ?thesis by blast
qed

theorem scope_identity_stable_witness:
  "(case KeyContextProvider initial_world mount_hooks None ''theme'' (VString ''dark'') of
      (s1, h1, w1) \<Rightarrow>
        (case KeyContextProvider w1 h1 None ''theme'' (VString ''light'') of
           (s2, h2, w2) \<Rightarrow> s2 = s1 \<and> nextObject w2 = nextObject w1)
        \<and> (case KeyContextProvider w1 h1 None ''user'' (VString ''dark'') of
             (s3, h3, w3) \<Rightarrow> s3 \<noteq> s1 \<and> nextObject w3 = Suc (nextObject w1))
        \<and> (case KeyContextProvider w1 h1 None [] (VString ''dark'') of
             (s4, h4, w4) \<Rightarrow> s4 = None \<and> nextObject w4 = nextObject w1))"
proof -
  obtain s1 h1 w1 where
    p1: "KeyContextProvider initial_world mount_hooks None ''theme'' (VString ''dark'') = (s1, h1, w1)"
    by (cases "KeyContextProvider initial_world mount_hooks None ''theme'' (VString ''dark'')")
  obtain s2 h2 w2 where
    p2: "KeyContextProvider w1 h1 None ''theme'' (VString ''light'') = (s2, h2, w2)"
    by (cases "KeyContextProvider w1 h1 None ''theme'' (VString ''light'')")
  obtain s3 h3 w3 where
    p3: "KeyContextProvider w1 h1 None ''user'' (VString ''dark'') = (s3, h3, w3)"
    by (cases "KeyContextProvider w1 h1 None ''user'' (VString ''dark'')")
  obtain s4 h4 w4 where
    p4: "KeyContextProvider w1 h1 None [] (VString ''dark'') = (s4, h4, w4)"
    by (cases "KeyContextProvider w1 h1 None [] (VString ''dark'')")
  have ctx: "context_ok initial_world None" "context_ok w1 None" by (simp_all add: context_ok_def)
  note E = provider_props [OF mount_hooks_ok ctx(1) p1]
  from scope_identity_stable [OF E(3) ctx(2) E(4) p2]
  have a: "s2 = s1 \<and> nextObject w2 = nextObject w1" by simp
  from scope_identity_stable [OF E(3) ctx(2) E(4) p3]
  have b: "s3 \<noteq> s1 \<and> nextObject w3 = Suc (nextObject w1)" by simp
  from scope_identity_stable [OF E(3) ctx(2) E(4) p4]
  have c: "s4 = None \<and> nextObject w4 = nextObject w1" by simp
  from a b c show ?thesis unfolding p1 prod.case p2 p3 p4 by simp
qed

text \<open>
  C6. A provider whose key is the empty string, the one string that is falsy, gives to its
  children the scope of its parent, the same object; it creates no scope, every key resolves
  under it as it does above it, and every lookup on a path of providers below it gives what it
  gives on that path without it.
\<close>

theorem empty_key_pass_through:
  assumes "hooks_ok w h" and "context_ok w P"
    and "KeyContextProvider w h P [] v = (S, h', w')"
  shows "S = P \<and> nextObject w' = nextObject w
       \<and> (\<forall>J. lookup S J = lookup P J \<and> getSnapshot w' S J = getSnapshot w P J)
       \<and> (\<forall>bs J. getSnapshot (snd (nest w' S bs)) (fst (nest w' S bs)) J
                 = getSnapshot (snd (nest w P bs)) (fst (nest w P bs)) J)"
proof -
  note E = provider_props [OF assms]
  have S: "S = P \<and> nextObject w' = nextObject w"
  proof (cases "memo h")
    case None
    with assms(3) show ?thesis
      by (auto simp: KeyContextProvider_def useRef_store_def useMemo_scope_def deps_unchanged_def
          scope_factory_def split: option.splits prod.splits)
  next
    case (Some m)
    then obtain p1 k1 s1 where m: "memo h = Some ((p1, k1), s1)" by (cases m) auto
    show ?thesis
    proof (cases "P = p1 \<and> [] = k1")
      case True
      with hooks_ok_memo(2) [OF assms(1) m] have "s1 = P" by simp
      with provider_reuse [OF m _ _ assms(3)] True show ?thesis by simp
    next
      case False
      from provider_recompute [OF m False assms(2,3)] show ?thesis by simp
    qed
  qed
  have frame: "\<forall>J. getSnapshot w' P J = getSnapshot w P J"
    using getSnapshot_extends [OF E(1) assms(2)] by blast
  have ctx': "context_ok w' P" using E(1) assms(2) by (rule context_ok_extends)
  have "\<forall>bs J. getSnapshot (snd (nest w' P bs)) (fst (nest w' P bs)) J
                 = getSnapshot (snd (nest w P bs)) (fst (nest w P bs)) J"
  proof (intro allI)
    fix bs J
    have a: "nest w' P bs = (fst (nest w' P bs), snd (nest w' P bs))" by simp
    have b: "nest w P bs = (fst (nest w P bs), snd (nest w P bs))" by simp
    from nest_props [OF ctx' a, of J] nest_props [OF assms(2) b, of J] frame
    show "getSnapshot (snd (nest w' P bs)) (fst (nest w' P bs)) J
                 = getSnapshot (snd (nest w P bs)) (fst (nest w P bs)) J"
      by (auto split: option.splits)
  qed
  with S frame show ?thesis by simp
qed

theorem empty_key_pass_through_witness:
  "(case nest initial_world None [(''theme'', VString ''dark'')] of
      (P, w) \<Rightarrow>
        (case KeyContextProvider w mount_hooks P [] (VString ''x'') of
           (S, h', w') \<Rightarrow>
             S = P \<and> nextObject w' = nextObject w
             \<and> getSnapshot w' S ''theme'' = Inr (VString ''dark'')
             \<and> lookup S [] = Undefined))"
proof -
  obtain P w where n: "nest initial_world None [(''theme'', VString ''dark'')] = (P, w)"
    by (cases "nest initial_world None [(''theme'', VString ''dark'')]")
  obtain S h' w' where p: "KeyContextProvider w mount_hooks P [] (VString ''x'') = (S, h', w')"
    by (cases "KeyContextProvider w mount_hooks P [] (VString ''x'')")
  have ctx0: "context_ok initial_world None" by (simp add: context_ok_def)
  from nest_props [OF ctx0 n, of "''theme''"]
  have ctx: "context_ok w P" and snap: "getSnapshot w P ''theme'' = Inr (VString ''dark'')"
    by simp_all
  from nest_lookup [OF ctx0 n, of "[]"] have look: "lookup P [] = Undefined"
    by (simp add: lookup_def)
  from empty_key_pass_through [OF mount_hooks_ok ctx p] snap look
  have "S = P \<and> nextObject w' = nextObject w
      \<and> getSnapshot w' S ''theme'' = Inr (VString ''dark'') \<and> lookup S [] = Undefined"
    by metis
  then show ?thesis unfolding n prod.case p by blast
qed

end
